theory Spec2Isabelle
  imports Main "HOL-Library.Product_Lexorder"
begin

section \<open>The path-finding core of \<open>project.py\<close>\<close>

text \<open>
  The development embeds the search core of the class \<open>PathfindingVisualizer\<close>:
  \<open>create_maze\<close>, \<open>get_neighbors\<close>, \<open>manhattan_distance\<close> and \<open>find_path\<close>.
  Python integers are \<open>int\<close>, a cell is a pair \<open>(row, col)\<close>, the grid is a list of
  rows, the two dictionaries are maps, and every exception the code can raise is a value
  of \<open>error\<close>.
\<close>

subsection \<open>Data\<close>

type_synonym cell = "int \<times> int"

text \<open>A queue entry is the tuple \<open>(priority, node, g_cost)\<close> of the source.\<close>

type_synonym entry = "int \<times> cell \<times> int"

datatype error = IndexError | KeyError

text \<open>
  The fields of the object that the search reads. The field \<open>self.end\<close> is called
  \<open>endp\<close>, since \<open>end\<close> is reserved.
\<close>

record visualizer =
  rows :: int
  cols :: int
  grid :: "int list list"
  start :: cell
  endp :: cell

text \<open>
  The local state of one call of \<open>find_path\<close>: the priority queue, the two
  dictionaries, the set and the list. \<open>came_from\<close> stores \<open>None\<close> for the start cell, so
  its values are optional cells.
\<close>

record search_state =
  frontier :: "entry list"
  came_from :: "cell \<rightharpoonup> cell option"
  cost_so_far :: "cell \<rightharpoonup> int"
  visited :: "cell set"
  explored :: "cell list"

subsection \<open>List indexing as Python does it\<close>

text \<open>
  \<open>xs[i]\<close>: an index from \<open>-len\<close> to \<open>-1\<close> counts from the back, anything outside
  \<open>-len .. len - 1\<close> raises \<open>IndexError\<close>.
\<close>

definition list_get :: "'a list \<Rightarrow> int \<Rightarrow> error + 'a" where
  "list_get xs i =
     (if 0 \<le> i \<and> i < int (length xs) then Inr (xs ! nat i)
      else if - int (length xs) \<le> i \<and> i < 0 then Inr (xs ! nat (int (length xs) + i))
      else Inl IndexError)"

text \<open>\<open>xs[i] = v\<close>, with the same index rule.\<close>

definition list_set :: "'a list \<Rightarrow> int \<Rightarrow> 'a \<Rightarrow> error + 'a list" where
  "list_set xs i v =
     (if 0 \<le> i \<and> i < int (length xs) then Inr (xs[nat i := v])
      else if - int (length xs) \<le> i \<and> i < 0 then Inr (xs[nat (int (length xs) + i) := v])
      else Inl IndexError)"

text \<open>\<open>self.grid[r][c]\<close>\<close>

definition grid_at :: "visualizer \<Rightarrow> cell \<Rightarrow> error + int" where
  "grid_at self p =
     (case list_get (grid self) (fst p) of
        Inl e \<Rightarrow> Inl e
      | Inr line \<Rightarrow> list_get line (snd p))"

subsection \<open>\<open>get_neighbors\<close> and \<open>manhattan_distance\<close>\<close>

text \<open>
  The \<open>for\<close> loop of \<open>get_neighbors\<close> over the direction list, with the list
  \<open>neighbors\<close> built so far. The conjunction short-circuits: the grid is read only when
  both coordinates pass the range test against \<open>self.rows\<close> and \<open>self.cols\<close>.
\<close>

fun neighbors_loop ::
  "visualizer \<Rightarrow> int \<Rightarrow> int \<Rightarrow> (int \<times> int) list \<Rightarrow> cell list \<Rightarrow> error + cell list" where
  "neighbors_loop self row col [] neighbors = Inr neighbors"
| "neighbors_loop self row col ((dr, dc) # ds) neighbors =
     (let new_row = row + dr; new_col = col + dc in
      if 0 \<le> new_row \<and> new_row < rows self \<and> 0 \<le> new_col \<and> new_col < cols self
      then (case grid_at self (new_row, new_col) of
              Inl e \<Rightarrow> Inl e
            | Inr v \<Rightarrow>
                if v \<noteq> 1
                then neighbors_loop self row col ds (neighbors @ [(new_row, new_col)])
                else neighbors_loop self row col ds neighbors)
      else neighbors_loop self row col ds neighbors)"

definition directions :: "(int \<times> int) list" where
  "directions = [(0, 1), (1, 0), (0, -1), (-1, 0)]"

definition get_neighbors :: "visualizer \<Rightarrow> int \<Rightarrow> int \<Rightarrow> error + cell list" where
  "get_neighbors self row col = neighbors_loop self row col directions []"

definition manhattan_distance :: "cell \<Rightarrow> cell \<Rightarrow> int" where
  "manhattan_distance a b = \<bar>fst b - fst a\<bar> + \<bar>snd b - snd a\<bar>"

subsection \<open>The priority queue\<close>

text \<open>
  \<open>queue.PriorityQueue\<close> keeps a binary heap of the tuples and \<open>get\<close> removes a least
  one. Tuples of integers are compared lexicographically, which is a total order, so two
  tuples that compare equal are the same tuple and the removed entry is determined by the
  contents of the queue. The queue is therefore a list of its entries; \<open>put\<close> adds an
  entry and \<open>get\<close> takes a least entry out. An empty queue gives \<open>None\<close>.
\<close>

definition pq_put :: "entry \<Rightarrow> entry list \<Rightarrow> entry list" where
  "pq_put e q = e # q"

fun pq_min :: "entry \<Rightarrow> entry list \<Rightarrow> entry" where
  "pq_min m [] = m"
| "pq_min m (e # q) = pq_min (if e < m then e else m) q"

fun pq_get :: "entry list \<Rightarrow> (entry \<times> entry list) option" where
  "pq_get [] = None"
| "pq_get (e # q) = (let m = pq_min e q in Some (m, remove1 m (e # q)))"

subsection \<open>\<open>find_path\<close>\<close>

text \<open>The two places where \<open>find_path\<close> branches on the algorithm name.\<close>

definition initial_priority :: "string \<Rightarrow> cell \<Rightarrow> cell \<Rightarrow> int" where
  "initial_priority algorithm s e =
     (if algorithm = ''astar'' then 0
      else if algorithm = ''dijkstra'' then 0
      else manhattan_distance s e)"

definition priority_of :: "string \<Rightarrow> int \<Rightarrow> int \<Rightarrow> int" where
  "priority_of algorithm new_cost h_cost =
     (if algorithm = ''astar'' then new_cost + h_cost
      else if algorithm = ''dijkstra'' then new_cost
      else h_cost)"

text \<open>
  The inner \<open>for next_pos in self.get_neighbors(*current)\<close> loop. \<open>cost_so_far[current]\<close>
  is read in every round and raises \<open>KeyError\<close> when the key is missing.
\<close>

fun relax ::
  "visualizer \<Rightarrow> string \<Rightarrow> cell \<Rightarrow> cell list \<Rightarrow> search_state \<Rightarrow> error + search_state" where
  "relax self algorithm current [] st = Inr st"
| "relax self algorithm current (next_pos # rest) st =
     (case grid_at self next_pos of
        Inl e \<Rightarrow> Inl e
      | Inr v \<Rightarrow>
          if v = 1 then relax self algorithm current rest st
          else (case cost_so_far st current of
                  None \<Rightarrow> Inl KeyError
                | Some c \<Rightarrow>
                    let new_cost = c + 1 in
                    if (case cost_so_far st next_pos of
                          None \<Rightarrow> True
                        | Some old \<Rightarrow> new_cost < old)
                    then
                      let h_cost = manhattan_distance next_pos (endp self);
                          priority = priority_of algorithm new_cost h_cost
                      in relax self algorithm current rest
                           (st\<lparr>cost_so_far := (cost_so_far st)(next_pos \<mapsto> new_cost),
                               frontier := pq_put (priority, next_pos, new_cost) (frontier st),
                               came_from := (came_from st)(next_pos \<mapsto> Some current)\<rparr>)
                    else relax self algorithm current rest st))"

text \<open>The cells of the grid that pass the range test of \<open>get_neighbors\<close>.\<close>

definition in_bounds :: "visualizer \<Rightarrow> cell set" where
  "in_bounds self = {0 ..< rows self} \<times> {0 ..< cols self}"

text \<open>The cells that have an entry in the queue.\<close>

definition queued :: "entry list \<Rightarrow> cell set" where
  "queued q = (\<lambda>e. fst (snd e)) ` set q"

text \<open>
  The \<open>while not frontier.empty()\<close> loop. It returns the state in which the loop is
  left, either because the queue is empty or by the \<open>break\<close> at the end cell.
\<close>

function search_loop :: "visualizer \<Rightarrow> string \<Rightarrow> search_state \<Rightarrow> error + search_state" where
  "search_loop self algorithm st =
     (case pq_get (frontier st) of
        None \<Rightarrow> Inr st
      | Some ((prio, current, current_g), q) \<Rightarrow>
          if current \<in> visited st then search_loop self algorithm (st\<lparr>frontier := q\<rparr>)
          else
            (case grid_at self current of
               Inl e \<Rightarrow> Inl e
             | Inr v \<Rightarrow>
                 if v = 1
                 then search_loop self algorithm
                        (st\<lparr>frontier := q, visited := insert current (visited st)\<rparr>)
                 else if current = endp self
                 then Inr (st\<lparr>frontier := q, visited := insert current (visited st),
                              explored := explored st @ [current]\<rparr>)
                 else
                   (case get_neighbors self (fst current) (snd current) of
                      Inl e \<Rightarrow> Inl e
                    | Inr ns \<Rightarrow>
                        (case relax self algorithm current ns
                                (st\<lparr>frontier := q, visited := insert current (visited st),
                                    explored := explored st @ [current]\<rparr>) of
                           Inl e \<Rightarrow> Inl e
                         | Inr st' \<Rightarrow> search_loop self algorithm st'))))"
  by pat_completeness auto

subsection \<open>Termination of the search loop\<close>

text \<open>
  Every round either drops a stale entry, which shortens the queue, or marks a cell of the
  queue as visited. New entries are cells inside the bounds, so the cells that can still
  be visited are finitely many and their number decreases.
\<close>

lemma pq_min_mem: "pq_min m q \<in> insert m (set q)"
  by (induction q arbitrary: m) auto

lemma pq_min_le: "pq_min m q \<le> m \<and> (\<forall>x\<in>set q. pq_min m q \<le> x)"
proof (induction q arbitrary: m)
  case Nil show ?case by simp
next
  case (Cons e q)
  have a: "pq_min (if e < m then e else m) q \<le> (if e < m then e else m)"
    and b: "\<forall>x\<in>set q. pq_min (if e < m then e else m) q \<le> x"
    using Cons.IH[of "if e < m then e else m"] by blast+
  have c: "(if e < m then e else m) \<le> m" "(if e < m then e else m) \<le> e" by auto
  show ?case using a b c by (auto intro: order_trans)
qed

lemma pq_get_SomeD:
  assumes "pq_get q = Some (m, q')"
  shows "m \<in> set q" and "q' = remove1 m q" and "\<forall>x\<in>set q. m \<le> x"
proof -
  obtain e r where q: "q = e # r" using assms by (cases q) auto
  have m: "m = pq_min e r" and q': "q' = remove1 m q" using assms q by (auto simp: Let_def)
  show "m \<in> set q" using pq_min_mem[of e r] m q by simp
  show "q' = remove1 m q" by (rule q')
  show "\<forall>x\<in>set q. m \<le> x" using pq_min_le[of e r] m q by simp
qed

lemma pq_get_length:
  assumes "pq_get q = Some (m, q')"
  shows "length q' < length q"
proof -
  have m: "m \<in> set q" and q': "q' = remove1 m q"
    using pq_get_SomeD(1,2)[OF assms] by auto
  have "0 < length q" using m by (cases q) auto
  then show ?thesis using m q' by (simp add: length_remove1)
qed

lemma pq_get_queued: "pq_get q = Some (m, q') \<Longrightarrow> queued q' \<subseteq> queued q"
  using pq_get_SomeD(2)[of q m q'] set_remove1_subset[of m q] by (auto simp: queued_def)

lemma neighbors_loop_bounds:
  "neighbors_loop self row col ds acc = Inr ns \<Longrightarrow> set acc \<subseteq> in_bounds self \<Longrightarrow> set ns \<subseteq> in_bounds self"
  by (induction self row col ds acc rule: neighbors_loop.induct)
     (auto simp: Let_def in_bounds_def split: if_splits sum.splits)

lemma get_neighbors_bounds: "get_neighbors self row col = Inr ns \<Longrightarrow> set ns \<subseteq> in_bounds self"
  unfolding get_neighbors_def using neighbors_loop_bounds[of self row col directions "[]" ns] by simp

lemma finite_in_bounds: "finite (in_bounds self)"
  by (simp add: in_bounds_def)

lemma relax_frame:
  "relax self algorithm current ns st = Inr st' \<Longrightarrow>
     visited st' = visited st \<and> explored st' = explored st \<and> queued (frontier st') \<subseteq> queued (frontier st) \<union> set ns"
proof (induction self algorithm current ns st rule: relax.induct)
  case (1 self algorithm current st)
  then show ?case by simp
next
  case (2 self algorithm current next_pos rest st)
  show ?case
  proof (cases "grid_at self next_pos")
    case (Inl e) with 2(4) show ?thesis by simp
  next
    case (Inr v)
    show ?thesis
    proof (cases "v = 1")
      case True
      with 2 Inr show ?thesis by auto
    next
      case False
      show ?thesis
      proof (cases "cost_so_far st current")
        case None with 2(4) Inr False show ?thesis by simp
      next
        case (Some c)
        show ?thesis
        proof (cases "case cost_so_far st next_pos of None \<Rightarrow> True | Some old \<Rightarrow> c + 1 < old")
          case True
          from 2(2)[OF Inr False Some refl True refl refl] 2(4) Inr False Some True
          show ?thesis by (auto simp: Let_def queued_def pq_put_def)
        next
          case F: False
          from 2(3)[OF Inr False Some refl F] 2(4) Inr False Some F
          show ?thesis by (auto simp: Let_def)
        qed
      qed
    qed
  qed
qed

lemma finite_queued: "finite (queued q)"
  by (simp add: queued_def)

lemma card_visit_less:
  assumes "c \<in> Q" and "c \<notin> V" and "Q' \<subseteq> A \<union> Q" and "finite A" and "finite Q"
  shows "card (A \<union> Q' - insert c V) < card (A \<union> Q - V)"
proof (rule psubset_card_mono)
  show "finite (A \<union> Q - V)" using assms by simp
  show "A \<union> Q' - insert c V \<subset> A \<union> Q - V" using assms by auto
qed

lemma card_drop_le:
  assumes "Q' \<subseteq> Q" and "finite A" and "finite Q"
  shows "card (A \<union> Q' - V) \<le> card (A \<union> Q - V)"
proof (rule card_mono)
  show "finite (A \<union> Q - V)" using assms by simp
  show "A \<union> Q' - V \<subseteq> A \<union> Q - V" using assms by auto
qed

lemma pq_get_cell_queued: "pq_get q = Some ((p, c, g), q') \<Longrightarrow> c \<in> queued q"
  using pq_get_SomeD(1)[of q "(p, c, g)" q'] by (force simp: queued_def)

termination search_loop
proof (relation "inv_image (less_than <*lex*> less_than)
      (\<lambda>(self, algorithm, st).
         (card ((in_bounds self \<union> queued (frontier st)) - visited st), length (frontier st)))",
    goal_cases)
  case 1
  show ?case by auto
next
  case (2 self algorithm st x2 x q xa ya current yb)
  then have g: "pq_get (frontier st) = Some ((xa, current, yb), q)" by simp
  have "card (in_bounds self \<union> queued q - visited st)
          \<le> card (in_bounds self \<union> queued (frontier st) - visited st)"
    by (rule card_drop_le[OF pq_get_queued[OF g] finite_in_bounds finite_queued])
  then show ?case using pq_get_length[OF g] by auto
next
  case (3 self algorithm st x2 x q xa ya current yb v)
  then have g: "pq_get (frontier st) = Some ((xa, current, yb), q)" by simp
  have "queued q \<subseteq> in_bounds self \<union> queued (frontier st)"
    using pq_get_queued[OF g] by auto
  then have "card (in_bounds self \<union> queued q - insert current (visited st))
          < card (in_bounds self \<union> queued (frontier st) - visited st)"
    using 3 by (intro card_visit_less pq_get_cell_queued[OF g] finite_in_bounds finite_queued) auto
  then show ?case by simp
next
  case (4 self algorithm st x2 x q xa ya current yb v ns st')
  then have g: "pq_get (frontier st) = Some ((xa, current, yb), q)" by simp
  have fr: "visited st' = insert current (visited st)"
       "queued (frontier st') \<subseteq> queued q \<union> set ns"
  proof -
    from 4 have r: "relax self algorithm current ns
       (st\<lparr>frontier := q, visited := insert current (visited st),
           explored := explored st @ [current]\<rparr>) = Inr st'" by simp
    show "visited st' = insert current (visited st)"
      "queued (frontier st') \<subseteq> queued q \<union> set ns"
      using relax_frame[OF r] by simp_all
  qed
  have "set ns \<subseteq> in_bounds self" using get_neighbors_bounds[of self _ _ ns] 4 by blast
  then have "queued (frontier st') \<subseteq> in_bounds self \<union> queued (frontier st)"
    using fr(2) pq_get_queued[OF g] by auto
  then have "card (in_bounds self \<union> queued (frontier st') - insert current (visited st))
          < card (in_bounds self \<union> queued (frontier st) - visited st)"
    using 4 by (intro card_visit_less pq_get_cell_queued[OF g] finite_in_bounds finite_queued) auto
  then show ?case using fr(1) by simp
qed

subsection \<open>Path reconstruction and the result of \<open>find_path\<close>\<close>

partial_function (option) reconstruct ::
  "(cell \<rightharpoonup> cell option) \<Rightarrow> cell option \<Rightarrow> cell list \<Rightarrow> cell list option" where
  "reconstruct cf current path =
     (case current of
        None \<Rightarrow> Some path
      | Some c \<Rightarrow> reconstruct cf (case cf c of None \<Rightarrow> None | Some p \<Rightarrow> p) (path @ [c]))"

declare reconstruct.simps [code]

fun any_wall :: "visualizer \<Rightarrow> cell list \<Rightarrow> error + bool" where
  "any_wall self [] = Inr False"
| "any_wall self (p # ps) =
     (case grid_at self p of
        Inl e \<Rightarrow> Inl e
      | Inr v \<Rightarrow> if v = 1 then Inr True else any_wall self ps)"

definition initial_state :: "visualizer \<Rightarrow> string \<Rightarrow> search_state" where
  "initial_state self algorithm =
     \<lparr>frontier = pq_put (initial_priority algorithm (start self) (endp self), start self, 0) [],
      came_from = [start self \<mapsto> None],
      cost_so_far = [start self \<mapsto> 0],
      visited = {},
      explored = []\<rparr>"

definition find_path ::
  "visualizer \<Rightarrow> string \<Rightarrow> (error + cell list option \<times> cell list) option" where
  "find_path self algorithm =
     (case search_loop self algorithm (initial_state self algorithm) of
        Inl e \<Rightarrow> Some (Inl e)
      | Inr st \<Rightarrow>
          (case reconstruct (came_from st) (Some (endp self)) [] of
             None \<Rightarrow> None
           | Some rpath \<Rightarrow>
               let path = rev rpath in
               if path \<noteq> [] \<and> hd path = start self
               then (case any_wall self path of
                       Inl e \<Rightarrow> Some (Inl e)
                     | Inr w \<Rightarrow>
                         if \<not> w then Some (Inr (Some path, explored st))
                         else Some (Inr (None, explored st)))
               else Some (Inr (None, explored st))))"

definition grid_set :: "int list list \<Rightarrow> cell \<Rightarrow> int \<Rightarrow> error + int list list" where
  "grid_set g p v =
     (case list_get g (fst p) of
        Inl e \<Rightarrow> Inl e
      | Inr line \<Rightarrow>
          (case list_set line (snd p) v of
             Inl e \<Rightarrow> Inl e
           | Inr line' \<Rightarrow> list_set g (fst p) line'))"

fun set_cells :: "int list list \<Rightarrow> cell list \<Rightarrow> int \<Rightarrow> error + int list list" where
  "set_cells g [] v = Inr g"
| "set_cells g (p # ps) v =
     (case grid_set g p v of Inl e \<Rightarrow> Inl e | Inr g' \<Rightarrow> set_cells g' ps v)"

definition py_range :: "int \<Rightarrow> int \<Rightarrow> int list" where
  "py_range a b = [a .. b - 1]"

definition create_maze :: "visualizer \<Rightarrow> error + visualizer" where
  "create_maze self =
     (let g0 = replicate (nat (rows self)) (replicate (nat (cols self)) (0::int));
          horizontal = concat (map (\<lambda>i. [(2, i), (3, i), (8, i), (12, i)]) (py_range 2 (cols self - 2)));
          vertical = concat (map (\<lambda>i. [(i, 5), (i, 10), (i, 15)]) (py_range 2 (rows self - 2)));
          additional = concat (map (\<lambda>i. [(6, i), (10, i + 8)]) (py_range 3 7))
      in case set_cells g0 (horizontal @ vertical @ additional) 1 of
           Inl e \<Rightarrow> Inl e
         | Inr g1 \<Rightarrow>
             (case grid_set g1 (start self) 2 of
                Inl e \<Rightarrow> Inl e
              | Inr g2 \<Rightarrow>
                  (case grid_set g2 (endp self) 3 of
                     Inl e \<Rightarrow> Inl e
                   | Inr g3 \<Rightarrow> Inr (self\<lparr>grid := g3\<rparr>))))"

definition init :: "error + visualizer" where
  "init = create_maze \<lparr>rows = 15, cols = 20, grid = replicate 15 (replicate 20 0),
                        start = (1, 1), endp = (15 - 2, 20 - 2)\<rparr>"

text \<open>
  \<open>__init__\<close> sets the dimensions and the two end points and calls \<open>create_maze\<close>.
\<close>

subsection \<open>Notions of the specification\<close>

text \<open>
  A grid is well formed when it has \<open>rows\<close> lines of \<open>cols\<close> cells each. A cell is a
  wall when the grid holds 1 there. A free cell lies inside the bounds and is not a wall.
  Two cells are 4-adjacent when they differ by one step in exactly one coordinate.
\<close>

definition wf_grid :: "visualizer \<Rightarrow> bool" where
  "wf_grid self \<longleftrightarrow>
     int (length (grid self)) = rows self \<and>
     list_all (\<lambda>line. int (length line) = cols self) (grid self)"

definition is_wall :: "visualizer \<Rightarrow> cell \<Rightarrow> bool" where
  "is_wall self p \<longleftrightarrow> grid_at self p = Inr 1"

definition free :: "visualizer \<Rightarrow> cell \<Rightarrow> bool" where
  "free self p \<longleftrightarrow>
     0 \<le> fst p \<and> fst p < rows self \<and> 0 \<le> snd p \<and> snd p < cols self \<and> \<not> is_wall self p"

definition adjacent :: "cell \<Rightarrow> cell \<Rightarrow> bool" where
  "adjacent p q \<longleftrightarrow> \<bar>fst p - fst q\<bar> + \<bar>snd p - snd q\<bar> = 1"

text \<open>
  A walk is a non-empty list of free cells in which consecutive cells are 4-adjacent; it
  has one edge less than it has cells.
\<close>

definition valid_walk :: "visualizer \<Rightarrow> cell list \<Rightarrow> bool" where
  "valid_walk self ps \<longleftrightarrow> ps \<noteq> [] \<and> list_all (free self) ps \<and> successively adjacent ps"

definition connects :: "visualizer \<Rightarrow> cell list \<Rightarrow> cell \<Rightarrow> cell \<Rightarrow> bool" where
  "connects self ps a b \<longleftrightarrow> valid_walk self ps \<and> hd ps = a \<and> last ps = b"

text \<open>The four candidate neighbours of a cell, in the order of the direction list.\<close>

definition around :: "int \<Rightarrow> int \<Rightarrow> cell list" where
  "around row col = [(row, col + 1), (row + 1, col), (row, col - 1), (row - 1, col)]"

subsection \<open>Invariants of the search\<close>

definition reach :: "visualizer \<Rightarrow> nat \<Rightarrow> cell \<Rightarrow> bool" where
  "reach self k n \<longleftrightarrow> (\<exists>ps. connects self ps (start self) n \<and> length ps = Suc k)"

definition heur :: "visualizer \<Rightarrow> string \<Rightarrow> cell \<Rightarrow> int" where
  "heur self algorithm n =
     (if algorithm = ''astar'' then manhattan_distance n (endp self) else 0)"

definition improve :: "search_state \<Rightarrow> cell \<Rightarrow> cell \<Rightarrow> int \<Rightarrow> int \<Rightarrow> search_state" where
  "improve st current next_pos new_cost priority =
     st\<lparr>cost_so_far := (cost_so_far st)(next_pos \<mapsto> new_cost),
        frontier := pq_put (priority, next_pos, new_cost) (frontier st),
        came_from := (came_from st)(next_pos \<mapsto> Some current)\<rparr>"

definition visit :: "search_state \<Rightarrow> entry list \<Rightarrow> cell \<Rightarrow> search_state" where
  "visit st q current =
     st\<lparr>frontier := q, visited := insert current (visited st),
        explored := explored st @ [current]\<rparr>"

definition link :: "search_state \<Rightarrow> cell \<Rightarrow> bool" where
  "link st n \<longleftrightarrow>
     (case came_from st n of
        None \<Rightarrow> cost_so_far st n = None
      | Some None \<Rightarrow> False
      | Some (Some p) \<Rightarrow>
          adjacent p n \<and>
          (\<exists>cp cn. cost_so_far st p = Some cp \<and> cost_so_far st n = Some cn \<and> cp + 1 \<le> cn))"

definition costs_ok :: "visualizer \<Rightarrow> search_state \<Rightarrow> bool" where
  "costs_ok self st \<longleftrightarrow>
     cost_so_far st (start self) = Some 0 \<and> came_from st (start self) = Some None \<and>
     (\<forall>n c. cost_so_far st n = Some c \<longrightarrow> 0 \<le> c \<and> reach self (nat c) n) \<and>
     (\<forall>n. n \<noteq> start self \<longrightarrow> link st n)"

definition trace_ok :: "visualizer \<Rightarrow> search_state \<Rightarrow> bool" where
  "trace_ok self st \<longleftrightarrow>
     queued (frontier st) \<subseteq> dom (cost_so_far st) \<and>
     visited st = set (explored st) \<and> distinct (explored st) \<and>
     visited st \<subseteq> dom (cost_so_far st) \<and>
     (if explored st = [] then frontier st \<noteq> [] \<and> queued (frontier st) \<subseteq> {start self}
      else hd (explored st) = start self)"

definition pending :: "visualizer \<Rightarrow> (cell \<times> cell) set \<Rightarrow> search_state \<Rightarrow> bool" where
  "pending self X st \<longleftrightarrow>
     dom (cost_so_far st) - visited st \<subseteq> queued (frontier st) \<and>
     (\<forall>v w. v \<in> visited st \<longrightarrow> free self w \<longrightarrow> adjacent v w \<longrightarrow>
        (v, w) \<in> X \<or> w \<in> dom (cost_so_far st)) \<and>
     endp self \<notin> visited st"

definition optimal :: "string \<Rightarrow> bool" where
  "optimal algorithm \<longleftrightarrow> algorithm = ''astar'' \<or> algorithm = ''dijkstra''"

definition settled :: "visualizer \<Rightarrow> search_state \<Rightarrow> bool" where
  "settled self st \<longleftrightarrow>
     (\<forall>v c k. v \<in> visited st \<longrightarrow> cost_so_far st v = Some c \<longrightarrow> reach self k v \<longrightarrow> c \<le> int k)"

definition relaxed :: "visualizer \<Rightarrow> (cell \<times> cell) set \<Rightarrow> search_state \<Rightarrow> bool" where
  "relaxed self X st \<longleftrightarrow>
     (\<forall>v w. v \<in> visited st \<longrightarrow> free self w \<longrightarrow> adjacent v w \<longrightarrow>
        (v, w) \<in> X \<or>
        (\<exists>c c'. cost_so_far st v = Some c \<and> cost_so_far st w = Some c' \<and> c' \<le> c + 1))"

definition queue_first :: "visualizer \<Rightarrow> search_state \<Rightarrow> bool" where
  "queue_first self st \<longleftrightarrow>
     visited st = {} \<and> dom (cost_so_far st) = {start self} \<and>
     (\<exists>p. frontier st = [(p, start self, 0)])"

definition queue_later :: "visualizer \<Rightarrow> string \<Rightarrow> search_state \<Rightarrow> bool" where
  "queue_later self algorithm st \<longleftrightarrow>
     (\<forall>p n c. (p, n, c) \<in> set (frontier st) \<longrightarrow>
        p = c + heur self algorithm n \<and> (\<exists>c'. cost_so_far st n = Some c' \<and> c' \<le> c)) \<and>
     (\<forall>n c. cost_so_far st n = Some c \<longrightarrow> n \<notin> visited st \<longrightarrow>
        (c + heur self algorithm n, n, c) \<in> set (frontier st))"

definition opt :: "visualizer \<Rightarrow> string \<Rightarrow> (cell \<times> cell) set \<Rightarrow> search_state \<Rightarrow> bool" where
  "opt self algorithm X st \<longleftrightarrow>
     (queue_first self st \<or> queue_later self algorithm st) \<and> settled self st \<and> relaxed self X st"

definition inv :: "visualizer \<Rightarrow> string \<Rightarrow> (cell \<times> cell) set \<Rightarrow> search_state \<Rightarrow> bool" where
  "inv self algorithm X st \<longleftrightarrow>
     costs_ok self st \<and> trace_ok self st \<and> pending self X st \<and>
     (optimal algorithm \<longrightarrow> opt self algorithm X st)"

definition final :: "visualizer \<Rightarrow> string \<Rightarrow> search_state \<Rightarrow> bool" where
  "final self algorithm st \<longleftrightarrow>
     costs_ok self st \<and> trace_ok self st \<and>
     (optimal algorithm \<longrightarrow> settled self st) \<and>
     (endp self \<in> visited st \<or> (frontier st = [] \<and> pending self {} st))"

text \<open>A small grid for concrete instances.\<close>

definition tiny :: visualizer where
  "tiny = \<lparr>rows = 3, cols = 3,
           grid = [[2, 0, 0],
                   [0, 0, 1],
                   [0, 1, 3]],
           start = (0, 0), endp = (2, 2)\<rparr>"

section \<open>Properties\<close>

subsection \<open>Reading the grid\<close>

lemma list_get_in_range:
  "0 \<le> i \<Longrightarrow> i < int (length xs) \<Longrightarrow> list_get xs i = Inr (xs ! nat i)"
  by (simp add: list_get_def)

lemma grid_at_in_bounds:
  assumes "wf_grid self" and "0 \<le> r" and "r < rows self" and "0 \<le> c" and "c < cols self"
  shows "grid_at self (r, c) = Inr (grid self ! nat r ! nat c)"
proof -
  have len: "int (length (grid self)) = rows self"
    using assms(1) by (simp add: wf_grid_def)
  have "nat r < length (grid self)" using assms(2,3) len by linarith
  then have "grid self ! nat r \<in> set (grid self)" by simp
  then have "int (length (grid self ! nat r)) = cols self"
    using assms(1) by (simp add: wf_grid_def list_all_iff)
  then show ?thesis
    using assms(2-5) len by (simp add: grid_at_def list_get_in_range)
qed

lemma free_grid_at:
  assumes "wf_grid self" and "free self p"
  shows "\<exists>v. grid_at self p = Inr v \<and> v \<noteq> 1"
proof -
  obtain r c where p: "p = (r, c)" by (cases p)
  have "grid_at self (r, c) = Inr (grid self ! nat r ! nat c)"
    using assms p by (intro grid_at_in_bounds) (auto simp: free_def)
  then show ?thesis using assms(2) p by (auto simp: free_def is_wall_def)
qed

lemma neighbors_loop_filter:
  assumes "wf_grid self"
  shows "neighbors_loop self row col ds acc
           = Inr (acc @ filter (free self) (map (\<lambda>(dr, dc). (row + dr, col + dc)) ds))"
proof (induction ds arbitrary: acc)
  case Nil
  show ?case by simp
next
  case (Cons d ds)
  obtain dr dc where d: "d = (dr, dc)" by (cases d)
  show ?case
  proof (cases "0 \<le> row + dr \<and> row + dr < rows self \<and> 0 \<le> col + dc \<and> col + dc < cols self")
    case True
    then have "grid_at self (row + dr, col + dc)
                 = Inr (grid self ! nat (row + dr) ! nat (col + dc))"
      using assms by (intro grid_at_in_bounds) auto
    then show ?thesis
      using True d Cons.IH by (simp add: free_def is_wall_def Let_def)
  next
    case False
    then have "\<not> free self (row + dr, col + dc)" by (auto simp: free_def)
    then show ?thesis using False d Cons.IH by (auto simp: Let_def)
  qed
qed

text \<open>
  C5: on a well-formed grid \<open>get_neighbors\<close> raises nothing and returns the free cells
  among the east, south, west and north neighbours, in this order. So it returns at most
  four cells, each inside the bounds and not a wall, and the result is a function of the
  grid and the cell alone.
\<close>

theorem get_neighbors_spec:
  assumes "wf_grid self"
  shows "get_neighbors self row col = Inr (filter (free self) (around row col))
         \<and> length (filter (free self) (around row col)) \<le> 4"
proof -
  have "map (\<lambda>(dr, dc). (row + dr, col + dc)) directions = around row col"
    by (simp add: directions_def around_def)
  then have "get_neighbors self row col = Inr (filter (free self) (around row col))"
    using neighbors_loop_filter[OF assms, of row col directions "[]"]
    by (simp add: get_neighbors_def)
  moreover have "length (filter (free self) (around row col)) \<le> length (around row col)"
    by (rule length_filter_le)
  ultimately show ?thesis by (simp add: around_def)
qed

theorem get_neighbors_spec_witness:
  "wf_grid tiny \<and> get_neighbors tiny 1 1 = Inr [(1, 0), (0, 1)]
   \<and> filter (free tiny) (around 1 1) = [(1, 0), (0, 1)]"
proof -
  have w: "wf_grid tiny" by (simp add: wf_grid_def tiny_def)
  have f: "filter (free tiny) (around 1 1) = [(1, 0), (0, 1)]"
    by (simp add: around_def free_def is_wall_def grid_at_def list_get_def tiny_def)
  show ?thesis using get_neighbors_spec[OF w, of 1 1] w f by simp
qed

subsection \<open>The search loop\<close>

lemma valid_walk_single: "free self p \<Longrightarrow> valid_walk self [p]"
  by (simp add: valid_walk_def)

lemma valid_walk_snoc:
  "valid_walk self ps \<Longrightarrow> free self n \<Longrightarrow> adjacent (last ps) n \<Longrightarrow> valid_walk self (ps @ [n])"
  by (auto simp: valid_walk_def successively_append_iff)

lemma valid_walk_last_free: "valid_walk self ps \<Longrightarrow> free self (last ps)"
  by (auto simp: valid_walk_def list_all_iff)

lemma valid_walk_hd_free: "valid_walk self ps \<Longrightarrow> free self (hd ps)"
  by (auto simp: valid_walk_def list_all_iff)

lemma reach_start: "free self (start self) \<Longrightarrow> reach self 0 (start self)"
  unfolding reach_def connects_def
  by (rule exI[of _ "[start self]"]) (simp add: valid_walk_single)

lemma reach_step:
  assumes "reach self k p" and "free self n" and "adjacent p n"
  shows "reach self (Suc k) n"
proof -
  from assms(1) obtain ps where ps: "valid_walk self ps" "hd ps = start self" "last ps = p"
    "length ps = Suc k" by (auto simp: reach_def connects_def)
  have ne: "ps \<noteq> []" using ps(4) by auto
  have "valid_walk self (ps @ [n])" using valid_walk_snoc[OF ps(1) assms(2)] ps(3) assms(3) by simp
  moreover have "hd (ps @ [n]) = start self" using ne ps(2) by simp
  ultimately show ?thesis using ps(4) unfolding reach_def connects_def
    by (intro exI[of _ "ps @ [n]"]) simp
qed

lemma reach_free: "reach self k n \<Longrightarrow> free self n"
  using valid_walk_last_free by (auto simp: reach_def connects_def)

lemma adjacent_sym: "adjacent p q \<Longrightarrow> adjacent q p"
  by (auto simp: adjacent_def)

lemma adjacent_neq: "adjacent p q \<Longrightarrow> p \<noteq> q"
  by (auto simp: adjacent_def)

lemma adjacent_around: "adjacent (r, c) q \<longleftrightarrow> q \<in> set (around r c)"
  by (cases q) (auto simp: adjacent_def around_def)

lemma get_neighbors_set:
  assumes "wf_grid self"
  shows "\<exists>ns. get_neighbors self (fst p) (snd p) = Inr ns \<and> set ns = {w. free self w \<and> adjacent p w}"
proof -
  have "set (filter (free self) (around (fst p) (snd p))) = {w. free self w \<and> adjacent p w}"
    using adjacent_around[of "fst p" "snd p"] by auto
  moreover have "map (\<lambda>(dr, dc). (fst p + dr, snd p + dc)) directions = around (fst p) (snd p)"
    by (simp add: directions_def around_def)
  ultimately show ?thesis
    using neighbors_loop_filter[OF assms, of "fst p" "snd p" directions "[]"]
    by (simp add: get_neighbors_def)
qed

lemma relax_rule:
  assumes "P ns st"
    and "\<And>n rest s. P (n # rest) s \<Longrightarrow>
           \<exists>v c. grid_at self n = Inr v \<and> v \<noteq> 1 \<and> cost_so_far s current = Some c \<and>
             (if (case cost_so_far s n of None \<Rightarrow> True | Some old \<Rightarrow> c + 1 < old)
              then P rest (improve s current n (c + 1)
                             (priority_of algorithm (c + 1) (manhattan_distance n (endp self))))
              else P rest s)"
  shows "\<exists>st'. relax self algorithm current ns st = Inr st' \<and> P [] st'"
  using assms(1)
proof (induction ns arbitrary: st)
  case Nil
  then show ?case by simp
next
  case (Cons n rest)
  from assms(2)[OF Cons.prems] obtain v c where
    v: "grid_at self n = Inr v" "v \<noteq> 1" and c: "cost_so_far st current = Some c" and
    k: "if (case cost_so_far st n of None \<Rightarrow> True | Some old \<Rightarrow> c + 1 < old)
        then P rest (improve st current n (c + 1)
                       (priority_of algorithm (c + 1) (manhattan_distance n (endp self))))
        else P rest st" by blast
  show ?case
  proof (cases "case cost_so_far st n of None \<Rightarrow> True | Some old \<Rightarrow> c + 1 < old")
    case True
    with k have "P rest (improve st current n (c + 1)
                       (priority_of algorithm (c + 1) (manhattan_distance n (endp self))))" by simp
    from Cons.IH[OF this] show ?thesis using v c True by (simp add: improve_def Let_def)
  next
    case False
    with k have "P rest st" by simp
    from Cons.IH[OF this] show ?thesis using v c False by (simp add: Let_def)
  qed
qed

lemma search_loop_empty:
  "pq_get (frontier st) = None \<Longrightarrow> search_loop self algorithm st = Inr st"
  by (subst search_loop.simps) simp

lemma search_loop_stale:
  "pq_get (frontier st) = Some ((p, current, g), q) \<Longrightarrow> current \<in> visited st \<Longrightarrow>
   search_loop self algorithm st = search_loop self algorithm (st\<lparr>frontier := q\<rparr>)"
  by (subst search_loop.simps) simp

lemma search_loop_found:
  "pq_get (frontier st) = Some ((p, current, g), q) \<Longrightarrow> current \<notin> visited st \<Longrightarrow>
   grid_at self current = Inr v \<Longrightarrow> v \<noteq> 1 \<Longrightarrow> current = endp self \<Longrightarrow>
   search_loop self algorithm st = Inr (visit st q current)"
  by (subst search_loop.simps) (simp add: visit_def)

lemma search_loop_expand:
  "pq_get (frontier st) = Some ((p, current, g), q) \<Longrightarrow> current \<notin> visited st \<Longrightarrow>
   grid_at self current = Inr v \<Longrightarrow> v \<noteq> 1 \<Longrightarrow> current \<noteq> endp self \<Longrightarrow>
   get_neighbors self (fst current) (snd current) = Inr ns \<Longrightarrow>
   relax self algorithm current ns (visit st q current) = Inr st' \<Longrightarrow>
   search_loop self algorithm st = search_loop self algorithm st'"
  by (subst search_loop.simps) (simp add: visit_def)

lemma costs_ok_frontier: "costs_ok self (st\<lparr>frontier := q\<rparr>) = costs_ok self st"
  by (simp add: costs_ok_def link_def cong: option.case_cong)

lemma costs_ok_visit: "costs_ok self (visit st q current) = costs_ok self st"
  by (simp add: costs_ok_def link_def visit_def cong: option.case_cong)

lemma trace_ok_stale:
  assumes "trace_ok self st" and "pq_get (frontier st) = Some ((p, current, g), q)"
    and "current \<in> visited st"
  shows "trace_ok self (st\<lparr>frontier := q\<rparr>)"
proof -
  have "queued q \<subseteq> queued (frontier st)" using pq_get_queued[OF assms(2)] .
  moreover have "explored st \<noteq> []" using assms(1,3) by (auto simp: trace_ok_def)
  ultimately show ?thesis using assms(1) by (auto simp: trace_ok_def)
qed

lemma trace_ok_visit:
  assumes "trace_ok self st" and "pq_get (frontier st) = Some ((p, current, g), q)"
    and "current \<notin> visited st"
  shows "trace_ok self (visit st q current)"
proof -
  have sub: "queued q \<subseteq> queued (frontier st)" using pq_get_queued[OF assms(2)] .
  have cur: "current \<in> queued (frontier st)" using pq_get_cell_queued[OF assms(2)] .
  have a: "queued q \<subseteq> dom (cost_so_far st)" using sub assms(1) by (auto simp: trace_ok_def)
  have b: "insert current (visited st) = set (explored st @ [current])"
    using assms(1) by (auto simp: trace_ok_def)
  have c: "distinct (explored st @ [current])" using assms(1,3) by (auto simp: trace_ok_def)
  have d: "insert current (visited st) \<subseteq> dom (cost_so_far st)"
    using assms(1) cur by (auto simp: trace_ok_def)
  have e: "hd (explored st @ [current]) = start self"
    using assms(1) cur by (cases "explored st") (auto simp: trace_ok_def)
  show ?thesis using a b c d e by (simp add: trace_ok_def visit_def)
qed

lemma trace_ok_improve:
  assumes "trace_ok self st" and "current \<in> visited st"
  shows "trace_ok self (improve st current n c pr)"
proof -
  have "explored st \<noteq> []" using assms by (auto simp: trace_ok_def)
  then show ?thesis using assms(1)
    by (auto simp: trace_ok_def improve_def queued_def pq_put_def)
qed

lemma link_improve_other:
  assumes "link st m" and "m \<noteq> n"
    and "case cost_so_far st n of None \<Rightarrow> True | Some old \<Rightarrow> c < old"
  shows "link (improve st current n c pr) m"
proof (cases "came_from st m")
  case None
  then show ?thesis using assms(1,2) by (simp add: link_def improve_def)
next
  case (Some po)
  show ?thesis
  proof (cases po)
    case None
    then show ?thesis using assms(1) Some by (simp add: link_def)
  next
    case (Some p)
    with \<open>came_from st m = Some po\<close> assms(1) obtain cp cn where
      a: "adjacent p m" "cost_so_far st p = Some cp" "cost_so_far st m = Some cn" "cp + 1 \<le> cn"
      by (auto simp: link_def)
    show ?thesis
    proof (cases "p = n")
      case True
      then have "c < cp" using assms(3) a(2) by simp
      then show ?thesis using a True Some \<open>came_from st m = Some po\<close> assms(2)
        by (simp add: link_def improve_def)
    next
      case False
      then show ?thesis using a Some \<open>came_from st m = Some po\<close> assms(2)
        by (simp add: link_def improve_def)
    qed
  qed
qed

lemma costs_ok_improve:
  assumes "costs_ok self st" and "cost_so_far st current = Some c"
    and "free self n" and "adjacent current n"
    and "case cost_so_far st n of None \<Rightarrow> True | Some old \<Rightarrow> c + 1 < old"
  shows "costs_ok self (improve st current n (c + 1) pr)"
proof -
  have "0 \<le> c \<and> reach self (nat c) current"
    using assms(1,2) unfolding costs_ok_def by blast
  then have c0: "0 \<le> c" and rc: "reach self (nat c) current" by simp_all
  have ns: "n \<noteq> start self"
  proof
    assume "n = start self"
    then have "c + 1 < 0" using assms(1,5) by (simp add: costs_ok_def)
    then show False using c0 by simp
  qed
  have nc: "n \<noteq> current" using adjacent_neq[OF assms(4)] by simp
  have "reach self (Suc (nat c)) n" using reach_step[OF rc assms(3,4)] .
  moreover have "Suc (nat c) = nat (c + 1)" using c0 by simp
  ultimately have rn: "reach self (nat (c + 1)) n" by simp
  have 1: "cost_so_far (improve st current n (c + 1) pr) (start self) = Some 0"
    using assms(1) ns by (simp add: costs_ok_def improve_def)
  have 2: "came_from (improve st current n (c + 1) pr) (start self) = Some None"
    using assms(1) ns by (simp add: costs_ok_def improve_def)
  have 3: "\<forall>m d. cost_so_far (improve st current n (c + 1) pr) m = Some d
             \<longrightarrow> 0 \<le> d \<and> reach self (nat d) m"
    using assms(1) c0 rn by (auto simp: costs_ok_def improve_def)
  have 4: "\<forall>m. m \<noteq> start self \<longrightarrow> link (improve st current n (c + 1) pr) m"
  proof (intro allI impI)
    fix m assume m: "m \<noteq> start self"
    show "link (improve st current n (c + 1) pr) m"
    proof (cases "m = n")
      case True
      then show ?thesis using assms(2,4) nc by (simp add: link_def improve_def)
    next
      case False
      have "link st m" using assms(1) m unfolding costs_ok_def by blast
      then show ?thesis using link_improve_other False assms(5) by blast
    qed
  qed
  show ?thesis unfolding costs_ok_def using 1 2 3 4 by blast
qed

lemma pq_get_keeps_others:
  assumes "pq_get q0 = Some ((p, current, g), q)" and "e \<in> set q0" and "fst (snd e) \<noteq> current"
  shows "e \<in> set q"
proof -
  have "q = remove1 (p, current, g) q0" using pq_get_SomeD(2)[OF assms(1)] .
  moreover have "e \<noteq> (p, current, g)" using assms(3) by auto
  ultimately show ?thesis using assms(2) by simp
qed

lemma pq_get_queued_others:
  assumes "pq_get q0 = Some ((p, current, g), q)" and "n \<in> queued q0" and "n \<noteq> current"
  shows "n \<in> queued q"
proof -
  from assms(2) obtain e where e: "e \<in> set q0" "fst (snd e) = n" by (auto simp: queued_def)
  then have "e \<in> set q" using pq_get_keeps_others[OF assms(1)] assms(3) by simp
  then show ?thesis using e(2) by (auto simp: queued_def)
qed

lemma pending_mono: "pending self X st \<Longrightarrow> X \<subseteq> Y \<Longrightarrow> pending self Y st"
  unfolding pending_def by blast

lemma pending_stale:
  assumes "pending self X st" and "pq_get (frontier st) = Some ((p, current, g), q)"
    and "current \<in> visited st"
  shows "pending self X (st\<lparr>frontier := q\<rparr>)"
proof -
  have "dom (cost_so_far st) - visited st \<subseteq> queued q"
  proof
    fix n assume n: "n \<in> dom (cost_so_far st) - visited st"
    then have "n \<in> queued (frontier st)" using assms(1) unfolding pending_def by blast
    moreover have "n \<noteq> current" using n assms(3) by auto
    ultimately show "n \<in> queued q" using pq_get_queued_others[OF assms(2)] by simp
  qed
  then show ?thesis using assms(1) by (simp add: pending_def)
qed

lemma pending_visit:
  assumes "pending self X st" and "pq_get (frontier st) = Some ((p, current, g), q)"
    and "current \<noteq> endp self"
  shows "pending self (X \<union> {current} \<times> UNIV) (visit st q current)"
proof -
  have a: "dom (cost_so_far st) - insert current (visited st) \<subseteq> queued q"
  proof
    fix n assume n: "n \<in> dom (cost_so_far st) - insert current (visited st)"
    then have "n \<in> queued (frontier st)" using assms(1) unfolding pending_def by blast
    moreover have "n \<noteq> current" using n by auto
    ultimately show "n \<in> queued q" using pq_get_queued_others[OF assms(2)] by simp
  qed
  have b: "\<forall>v w. v \<in> insert current (visited st) \<longrightarrow> free self w \<longrightarrow> adjacent v w \<longrightarrow>
        (v, w) \<in> X \<union> {current} \<times> UNIV \<or> w \<in> dom (cost_so_far st)"
    using assms(1) unfolding pending_def by blast
  have c: "endp self \<notin> insert current (visited st)"
    using assms(1,3) unfolding pending_def by auto
  show ?thesis unfolding pending_def visit_def using a b c by simp
qed

lemma pending_improve:
  assumes "pending self X st"
  shows "pending self (X - {(current, n)}) (improve st current n c pr)"
proof -
  have a: "dom ((cost_so_far st)(n \<mapsto> c)) - visited st
             \<subseteq> queued (pq_put (pr, n, c) (frontier st))"
    using assms unfolding pending_def by (auto simp: queued_def pq_put_def)
  have b: "\<forall>v w. v \<in> visited st \<longrightarrow> free self w \<longrightarrow> adjacent v w \<longrightarrow>
        (v, w) \<in> X - {(current, n)} \<or> w \<in> dom ((cost_so_far st)(n \<mapsto> c))"
  proof (intro allI impI)
    fix v w assume "v \<in> visited st" "free self w" "adjacent v w"
    then have "(v, w) \<in> X \<or> w \<in> dom (cost_so_far st)"
      using assms unfolding pending_def by blast
    then show "(v, w) \<in> X - {(current, n)} \<or> w \<in> dom ((cost_so_far st)(n \<mapsto> c))"
      by (cases "w = n") auto
  qed
  show ?thesis unfolding pending_def improve_def using a b assms
    by (simp add: pending_def)
qed

lemma pending_skip:
  assumes "pending self X st" and "n \<in> dom (cost_so_far st)"
  shows "pending self (X - {(current, n)}) st"
  using assms unfolding pending_def by blast

lemma heur_step: "adjacent a b \<Longrightarrow> heur self algorithm a \<le> heur self algorithm b + 1"
  by (auto simp: heur_def manhattan_distance_def adjacent_def)

lemma heur_walk:
  "ps \<noteq> [] \<Longrightarrow> successively adjacent ps \<Longrightarrow>
   heur self algorithm (hd ps) \<le> heur self algorithm (last ps) + int (length ps) - 1"
proof (induction ps)
  case Nil
  then show ?case by simp
next
  case (Cons a ps)
  show ?case
  proof (cases ps)
    case Nil
    then show ?thesis by simp
  next
    case (Cons b qs)
    have "adjacent a b" and "successively adjacent ps"
      using Cons.prems(2) Cons by simp_all
    then have "heur self algorithm a \<le> heur self algorithm b + 1"
      and "heur self algorithm (hd ps) \<le> heur self algorithm (last ps) + int (length ps) - 1"
      using heur_step Cons.IH Cons by simp_all
    then show ?thesis using Cons by simp
  qed
qed

lemma queue_min:
  assumes "queue_first self st \<or> queue_later self algorithm st"
    and "pq_get (frontier st) = Some ((p, current, g0), q)"
    and "cost_so_far st current = Some c"
    and "cost_so_far st n = Some c'" and "n \<notin> visited st"
  shows "c + heur self algorithm current \<le> c' + heur self algorithm n"
  using assms(1)
proof
  assume "queue_first self st"
  then have "dom (cost_so_far st) = {start self}" by (simp add: queue_first_def)
  then have "n = start self" "current = start self" using assms(3,4) by auto
  then show ?thesis using assms(3,4) by simp
next
  assume l: "queue_later self algorithm st"
  have m: "(p, current, g0) \<in> set (frontier st)" using pq_get_SomeD(1)[OF assms(2)] .
  then have "p = g0 + heur self algorithm current \<and>
             (\<exists>c'. cost_so_far st current = Some c' \<and> c' \<le> g0)"
    using l unfolding queue_later_def by blast
  then have p: "p = g0 + heur self algorithm current" and c: "c \<le> g0"
    using assms(3) by auto
  have "(c' + heur self algorithm n, n, c') \<in> set (frontier st)"
    using l assms(4,5) unfolding queue_later_def by blast
  then have "(p, current, g0) \<le> (c' + heur self algorithm n, n, c')"
    using pq_get_SomeD(3)[OF assms(2)] by blast
  then have "p \<le> c' + heur self algorithm n" by (auto simp: less_eq_prod_def)
  then show ?thesis using p c by simp
qed

lemma valid_walk_Cons2:
  "valid_walk self (u # w # rest) \<longleftrightarrow> free self u \<and> adjacent u w \<and> valid_walk self (w # rest)"
  by (auto simp: valid_walk_def)

lemma walk_bound:
  assumes "relaxed self {} st"
    and "\<And>n c'. cost_so_far st n = Some c' \<Longrightarrow> n \<notin> visited st \<Longrightarrow>
           c + heur self algorithm current \<le> c' + heur self algorithm n"
    and "cost_so_far st current = Some c"
  shows "valid_walk self ps \<Longrightarrow> last ps = current \<Longrightarrow> cost_so_far st (hd ps) = Some cu \<Longrightarrow>
         c \<le> cu + int (length ps) - 1"
proof (induction ps arbitrary: cu)
  case Nil
  then show ?case by (simp add: valid_walk_def)
next
  case (Cons u ps)
  show ?case
  proof (cases ps)
    case Nil
    then show ?thesis using Cons.prems assms(3) by simp
  next
    case (Cons w rest)
    have vw: "valid_walk self (w # rest)" and adj: "adjacent u w"
      using Cons.prems(1) Cons by (simp_all add: valid_walk_Cons2)
    have fw: "free self w" using valid_walk_hd_free[OF vw] by simp
    have cu: "cost_so_far st u = Some cu" using Cons.prems(3) by simp
    show ?thesis
    proof (cases "u \<in> visited st")
      case True
      then obtain c1 cw where "cost_so_far st u = Some c1" "cost_so_far st w = Some cw"
        "cw \<le> c1 + 1"
        using assms(1) fw adj unfolding relaxed_def by blast
      then have cw: "cost_so_far st (hd ps) = Some cw" "cw \<le> cu + 1" using cu Cons by simp_all
      have "c \<le> cw + int (length ps) - 1"
        using Cons.IH[OF _ _ cw(1)] vw Cons.prems(2) Cons by simp
      then show ?thesis using cw(2) by simp
    next
      case False
      have "c + heur self algorithm current \<le> cu + heur self algorithm u"
        using assms(2)[OF cu False] .
      moreover have "heur self algorithm (hd (u # ps))
                       \<le> heur self algorithm (last (u # ps)) + int (length (u # ps)) - 1"
        using Cons.prems(1) by (intro heur_walk) (simp_all add: valid_walk_def)
      ultimately show ?thesis using Cons.prems(2) by simp
    qed
  qed
qed

lemma settle:
  assumes "costs_ok self st" and "opt self algorithm {} st"
    and "pq_get (frontier st) = Some ((p, current, g0), q)"
    and "cost_so_far st current = Some c" and "reach self k current"
  shows "c \<le> int k"
proof -
  from assms(5) obtain ps where ps: "valid_walk self ps" "hd ps = start self"
    "last ps = current" "length ps = Suc k" by (auto simp: reach_def connects_def)
  have q: "queue_first self st \<or> queue_later self algorithm st" and r: "relaxed self {} st"
    using assms(2) by (simp_all add: opt_def)
  have s: "cost_so_far st (hd ps) = Some 0" using assms(1) ps(2) by (simp add: costs_ok_def)
  have "c \<le> 0 + int (length ps) - 1"
    using walk_bound[OF r queue_min[OF q assms(3,4)] assms(4) ps(1,3) s] by simp
  then show ?thesis using ps(4) by simp
qed

lemma opt_mono: "opt self algorithm X st \<Longrightarrow> X \<subseteq> Y \<Longrightarrow> opt self algorithm Y st"
  unfolding opt_def relaxed_def by blast

lemma queue_later_pop:
  assumes "queue_first self st \<or> queue_later self algorithm st"
    and "pq_get (frontier st) = Some ((p, current, g0), q)"
    and "V' = insert current (visited st)"
  shows "(\<forall>p n c. (p, n, c) \<in> set q \<longrightarrow>
            p = c + heur self algorithm n \<and> (\<exists>c'. cost_so_far st n = Some c' \<and> c' \<le> c)) \<and>
         (\<forall>n c. cost_so_far st n = Some c \<longrightarrow> n \<notin> V' \<longrightarrow>
            (c + heur self algorithm n, n, c) \<in> set q)"
  using assms(1)
proof
  assume f: "queue_first self st"
  then obtain p0 where p0: "frontier st = [(p0, start self, 0)]" by (auto simp: queue_first_def)
  have m: "(p, current, g0) \<in> set (frontier st)" using pq_get_SomeD(1)[OF assms(2)] .
  then have e: "(p, current, g0) = (p0, start self, 0)" using p0 by simp
  have "q = remove1 (p, current, g0) (frontier st)" using pq_get_SomeD(2)[OF assms(2)] .
  then have "q = []" using p0 e by simp
  moreover have "\<forall>n c. cost_so_far st n = Some c \<longrightarrow> n \<in> V'"
  proof (intro allI impI)
    fix n c assume "cost_so_far st n = Some c"
    then have "n \<in> dom (cost_so_far st)" by auto
    then have "n = start self" using f by (simp add: queue_first_def)
    then show "n \<in> V'" using e assms(3) by simp
  qed
  ultimately show ?thesis by simp
next
  assume l: "queue_later self algorithm st"
  have sub: "set q \<subseteq> set (frontier st)"
    using pq_get_SomeD(2)[OF assms(2)] set_remove1_subset[of "(p, current, g0)" "frontier st"]
    by simp
  have a: "\<forall>p n c. (p, n, c) \<in> set q \<longrightarrow>
            p = c + heur self algorithm n \<and> (\<exists>c'. cost_so_far st n = Some c' \<and> c' \<le> c)"
    using l sub unfolding queue_later_def by blast
  have b: "\<forall>n c. cost_so_far st n = Some c \<longrightarrow> n \<notin> V' \<longrightarrow>
            (c + heur self algorithm n, n, c) \<in> set q"
  proof (intro allI impI)
    fix n c assume n: "cost_so_far st n = Some c" "n \<notin> V'"
    then have "(c + heur self algorithm n, n, c) \<in> set (frontier st)"
      using l assms(3) unfolding queue_later_def by blast
    moreover have "n \<noteq> current" using n(2) assms(3) by auto
    ultimately show "(c + heur self algorithm n, n, c) \<in> set q"
      using pq_get_keeps_others[OF assms(2)] by simp
  qed
  show ?thesis by (rule conjI[OF a b])
qed

lemma opt_stale:
  assumes "opt self algorithm X st" and "pq_get (frontier st) = Some ((p, current, g0), q)"
    and "current \<in> visited st"
  shows "opt self algorithm X (st\<lparr>frontier := q\<rparr>)"
proof -
  have qf: "queue_first self st \<or> queue_later self algorithm st"
    using assms(1) by (simp add: opt_def)
  have v: "visited st = insert current (visited st)" using assms(3) by auto
  have "queue_later self algorithm (st\<lparr>frontier := q\<rparr>)"
    using queue_later_pop[OF qf assms(2) v] by (simp add: queue_later_def)
  moreover have "settled self (st\<lparr>frontier := q\<rparr>)" "relaxed self X (st\<lparr>frontier := q\<rparr>)"
    using assms(1) by (simp_all add: opt_def settled_def relaxed_def)
  ultimately show ?thesis by (simp add: opt_def)
qed

lemma opt_visit:
  assumes "costs_ok self st" and "opt self algorithm {} st"
    and "pq_get (frontier st) = Some ((p, current, g0), q)"
  shows "opt self algorithm ({current} \<times> UNIV) (visit st q current)"
proof -
  have qf: "queue_first self st \<or> queue_later self algorithm st"
    and s: "settled self st" and r: "relaxed self {} st"
    using assms(2) by (simp_all add: opt_def)
  have 1: "queue_later self algorithm (visit st q current)"
    using queue_later_pop[OF qf assms(3) refl] by (simp add: queue_later_def visit_def)
  have 2: "settled self (visit st q current)"
    unfolding settled_def
  proof (intro allI impI)
    fix v c k
    assume v: "v \<in> visited (visit st q current)" "cost_so_far (visit st q current) v = Some c"
      "reach self k v"
    show "c \<le> int k"
    proof (cases "v = current")
      case True
      then show ?thesis using settle[OF assms(1,2,3) _ v(3)[unfolded True]] v(2)
        by (simp add: visit_def)
    next
      case False
      then have "v \<in> visited st" "cost_so_far st v = Some c"
        using v(1,2) by (simp_all add: visit_def)
      then show ?thesis using s v(3) unfolding settled_def by blast
    qed
  qed
  have 3: "relaxed self ({current} \<times> UNIV) (visit st q current)"
    unfolding relaxed_def
  proof (intro allI impI)
    fix v w
    assume vw: "v \<in> visited (visit st q current)" "free self w" "adjacent v w"
    show "(v, w) \<in> {current} \<times> UNIV \<or>
          (\<exists>c c'. cost_so_far (visit st q current) v = Some c \<and>
                  cost_so_far (visit st q current) w = Some c' \<and> c' \<le> c + 1)"
    proof (cases "v = current")
      case True
      then show ?thesis by simp
    next
      case False
      then have "v \<in> visited st" using vw(1) by (simp add: visit_def)
      then have "\<exists>c c'. cost_so_far st v = Some c \<and> cost_so_far st w = Some c' \<and> c' \<le> c + 1"
        using r vw(2,3) unfolding relaxed_def by blast
      then show ?thesis by (simp add: visit_def)
    qed
  qed
  show ?thesis using 1 2 3 by (simp add: opt_def)
qed

lemma priority_of_heur:
  "optimal algorithm \<Longrightarrow>
   priority_of algorithm c (manhattan_distance n (endp self)) = c + heur self algorithm n"
  by (auto simp: optimal_def priority_of_def heur_def)

lemma opt_improve:
  assumes "optimal algorithm" and "costs_ok self st" and "trace_ok self st"
    and "opt self algorithm X st"
    and "cost_so_far st current = Some c" and "current \<in> visited st"
    and "free self n" and "adjacent current n"
    and "case cost_so_far st n of None \<Rightarrow> True | Some old \<Rightarrow> c + 1 < old"
  shows "opt self algorithm (X - {(current, n)})
           (improve st current n (c + 1)
              (priority_of algorithm (c + 1) (manhattan_distance n (endp self))))"
    (is "opt _ _ _ ?st'")
proof -
  have qf: "queue_first self st \<or> queue_later self algorithm st"
    and s: "settled self st" and r: "relaxed self X st"
    using assms(4) by (simp_all add: opt_def)
  have ql: "queue_later self algorithm st"
    using qf assms(6) by (auto simp: queue_first_def)
  have "0 \<le> c \<and> reach self (nat c) current"
    using assms(2,5) unfolding costs_ok_def by blast
  then have c0: "0 \<le> c" and rn: "reach self (Suc (nat c)) n"
    using reach_step[OF _ assms(7,8)] by simp_all
  have nv: "n \<notin> visited st"
  proof
    assume v: "n \<in> visited st"
    then obtain old where old: "cost_so_far st n = Some old"
      using assms(3) unfolding trace_ok_def by blast
    then have "old \<le> int (Suc (nat c))" using s v rn unfolding settled_def by blast
    then show False using assms(9) old c0 by simp
  qed
  have nc: "n \<noteq> current" using nv assms(6) by auto
  have g': "cost_so_far ?st' = (cost_so_far st)(n \<mapsto> c + 1)"
    and f': "set (frontier ?st') = insert (c + 1 + heur self algorithm n, n, c + 1) (set (frontier st))"
    and v': "visited ?st' = visited st"
    by (simp_all add: improve_def pq_put_def priority_of_heur[OF assms(1)])
  have q1: "\<forall>p m d. (p, m, d) \<in> set (frontier ?st') \<longrightarrow>
              p = d + heur self algorithm m \<and> (\<exists>c'. cost_so_far ?st' m = Some c' \<and> c' \<le> d)"
  proof (intro allI impI)
    fix p m d assume e: "(p, m, d) \<in> set (frontier ?st')"
    show "p = d + heur self algorithm m \<and> (\<exists>c'. cost_so_far ?st' m = Some c' \<and> c' \<le> d)"
    proof (cases "(p, m, d) = (c + 1 + heur self algorithm n, n, c + 1)")
      case True
      then show ?thesis unfolding g' by simp
    next
      case False
      then have "(p, m, d) \<in> set (frontier st)" using e unfolding f' by blast
      then have "p = d + heur self algorithm m \<and>
                 (\<exists>c'. cost_so_far st m = Some c' \<and> c' \<le> d)"
        using ql unfolding queue_later_def by blast
      then obtain c' where o: "p = d + heur self algorithm m" "cost_so_far st m = Some c'"
        "c' \<le> d" by blast
      show ?thesis
      proof (cases "m = n")
        case True
        then have "c + 1 < c'" using o(2) assms(9) by simp
        then show ?thesis using o True unfolding g' by simp
      next
        case False
        then show ?thesis using o unfolding g' by simp
      qed
    qed
  qed
  have q2: "\<forall>m d. cost_so_far ?st' m = Some d \<longrightarrow> m \<notin> visited ?st' \<longrightarrow>
              (d + heur self algorithm m, m, d) \<in> set (frontier ?st')"
  proof (intro allI impI)
    fix m d assume m: "cost_so_far ?st' m = Some d" "m \<notin> visited ?st'"
    show "(d + heur self algorithm m, m, d) \<in> set (frontier ?st')"
    proof (cases "m = n")
      case True
      then show ?thesis using m(1) unfolding g' f' by simp
    next
      case False
      then have "cost_so_far st m = Some d" "m \<notin> visited st" using m unfolding g' v' by simp_all
      then have "(d + heur self algorithm m, m, d) \<in> set (frontier st)"
        using ql unfolding queue_later_def by blast
      then show ?thesis unfolding f' by blast
    qed
  qed
  have 1: "queue_later self algorithm ?st'"
    unfolding queue_later_def using q1 q2 by (rule conjI)
  have 2: "settled self ?st'"
    unfolding settled_def
  proof (intro allI impI)
    fix v d k assume v: "v \<in> visited ?st'" "cost_so_far ?st' v = Some d" "reach self k v"
    then have "v \<noteq> n" using nv unfolding v' by auto
    then have "cost_so_far st v = Some d" using v(2) unfolding g' by simp
    then show "d \<le> int k" using s v(1,3) unfolding settled_def v' by blast
  qed
  have 3: "relaxed self (X - {(current, n)}) ?st'"
    unfolding relaxed_def
  proof (intro allI impI)
    fix v w assume vw: "v \<in> visited ?st'" "free self w" "adjacent v w"
    then have vn: "v \<noteq> n" using nv unfolding v' by auto
    show "(v, w) \<in> X - {(current, n)} \<or>
          (\<exists>a b. cost_so_far ?st' v = Some a \<and> cost_so_far ?st' w = Some b \<and> b \<le> a + 1)"
    proof (cases "(v, w) = (current, n)")
      case True
      then show ?thesis using assms(5) nc unfolding g' by simp
    next
      case False
      have "(v, w) \<in> X \<or>
          (\<exists>a b. cost_so_far st v = Some a \<and> cost_so_far st w = Some b \<and> b \<le> a + 1)"
        using r vw unfolding relaxed_def v' by blast
      then show ?thesis
      proof
        assume "(v, w) \<in> X"
        then show ?thesis using False by simp
      next
        assume "\<exists>a b. cost_so_far st v = Some a \<and> cost_so_far st w = Some b \<and> b \<le> a + 1"
        then obtain a b where ab: "cost_so_far st v = Some a" "cost_so_far st w = Some b"
          "b \<le> a + 1" by blast
        show ?thesis
        proof (cases "w = n")
          case True
          then have "c + 1 < b" using assms(9) ab(2) by simp
          then show ?thesis using ab vn True unfolding g' by simp
        next
          case False
          then show ?thesis using ab vn unfolding g' by simp
        qed
      qed
    qed
  qed
  show ?thesis using 1 2 3 by (simp add: opt_def)
qed

lemma opt_skip:
  assumes "opt self algorithm X st" and "cost_so_far st current = Some c"
    and "\<not> (case cost_so_far st n of None \<Rightarrow> True | Some old \<Rightarrow> c + 1 < old)"
  shows "opt self algorithm (X - {(current, n)}) st"
proof -
  from assms(3) obtain old where old: "cost_so_far st n = Some old" "old \<le> c + 1"
    by (cases "cost_so_far st n") auto
  have "relaxed self (X - {(current, n)}) st"
    unfolding relaxed_def
  proof (intro allI impI)
    fix v w assume vw: "v \<in> visited st" "free self w" "adjacent v w"
    show "(v, w) \<in> X - {(current, n)} \<or>
          (\<exists>a b. cost_so_far st v = Some a \<and> cost_so_far st w = Some b \<and> b \<le> a + 1)"
    proof (cases "(v, w) = (current, n)")
      case True
      then show ?thesis using assms(2) old by simp
    next
      case False
      then show ?thesis using assms(1) vw unfolding opt_def relaxed_def by blast
    qed
  qed
  then show ?thesis using assms(1) by (simp add: opt_def)
qed

lemma pending_restrict:
  assumes "pending self X st"
    and "\<And>v w. (v, w) \<in> X \<Longrightarrow> v \<in> visited st \<Longrightarrow> free self w \<Longrightarrow> adjacent v w \<Longrightarrow> (v, w) \<in> Y"
  shows "pending self Y st"
  using assms unfolding pending_def by blast

lemma relaxed_restrict:
  assumes "relaxed self X st"
    and "\<And>v w. (v, w) \<in> X \<Longrightarrow> v \<in> visited st \<Longrightarrow> free self w \<Longrightarrow> adjacent v w \<Longrightarrow> (v, w) \<in> Y"
  shows "relaxed self Y st"
  unfolding relaxed_def
proof (intro allI impI)
  fix v w assume vw: "v \<in> visited st" "free self w" "adjacent v w"
  then have "(v, w) \<in> X \<or>
      (\<exists>c c'. cost_so_far st v = Some c \<and> cost_so_far st w = Some c' \<and> c' \<le> c + 1)"
    using assms(1) unfolding relaxed_def by blast
  then show "(v, w) \<in> Y \<or>
      (\<exists>c c'. cost_so_far st v = Some c \<and> cost_so_far st w = Some c' \<and> c' \<le> c + 1)"
    using assms(2)[OF _ vw] by blast
qed

lemma inv_restrict:
  assumes "inv self algorithm X st"
    and "\<And>v w. (v, w) \<in> X \<Longrightarrow> v \<in> visited st \<Longrightarrow> free self w \<Longrightarrow> adjacent v w \<Longrightarrow> (v, w) \<in> Y"
  shows "inv self algorithm Y st"
proof -
  have "pending self Y st" using pending_restrict[of self X st Y] assms by (simp add: inv_def)
  moreover have "optimal algorithm \<longrightarrow> opt self algorithm Y st"
    using relaxed_restrict[of self X st Y] assms by (simp add: inv_def opt_def)
  ultimately show ?thesis using assms(1) by (simp add: inv_def)
qed

lemma pq_get_None: "pq_get q = None \<longleftrightarrow> q = []"
  by (cases q) (simp_all add: Let_def)

lemma popped_free:
  assumes "costs_ok self st" and "trace_ok self st"
    and "pq_get (frontier st) = Some ((p, current, g0), q)"
  shows "free self current" and "\<exists>c. cost_so_far st current = Some c"
proof -
  have "current \<in> dom (cost_so_far st)"
    using pq_get_cell_queued[OF assms(3)] assms(2) unfolding trace_ok_def by blast
  then obtain c where c: "cost_so_far st current = Some c" by auto
  then have "reach self (nat c) current" using assms(1) unfolding costs_ok_def by blast
  then show "free self current" by (rule reach_free)
  show "\<exists>c. cost_so_far st current = Some c" using c by blast
qed

lemma inv_stale:
  assumes "inv self algorithm X st" and "pq_get (frontier st) = Some ((p, current, g0), q)"
    and "current \<in> visited st"
  shows "inv self algorithm X (st\<lparr>frontier := q\<rparr>)"
proof -
  have c: "costs_ok self st" and t: "trace_ok self st" and pe: "pending self X st"
    and o: "optimal algorithm \<longrightarrow> opt self algorithm X st"
    using assms(1) by (simp_all add: inv_def)
  have "costs_ok self (st\<lparr>frontier := q\<rparr>)" using c by (simp add: costs_ok_frontier)
  moreover have "optimal algorithm \<longrightarrow> opt self algorithm X (st\<lparr>frontier := q\<rparr>)"
    using o opt_stale[OF _ assms(2,3)] by blast
  ultimately show ?thesis
    using trace_ok_stale[OF t assms(2,3)] pending_stale[OF pe assms(2,3)]
    by (simp add: inv_def)
qed

lemma inv_visit:
  assumes "inv self algorithm {} st" and "pq_get (frontier st) = Some ((p, current, g0), q)"
    and "current \<notin> visited st" and "current \<noteq> endp self"
  shows "inv self algorithm ({current} \<times> UNIV) (visit st q current)"
proof -
  have c: "costs_ok self st" and t: "trace_ok self st" and pe: "pending self {} st"
    and o: "optimal algorithm \<longrightarrow> opt self algorithm {} st"
    using assms(1) by (simp_all add: inv_def)
  have "pending self ({} \<union> {current} \<times> UNIV) (visit st q current)"
    using pending_visit[OF pe assms(2,4)] .
  then have "pending self ({current} \<times> UNIV) (visit st q current)" by simp
  then show ?thesis
    using c t o costs_ok_visit[of self st q current] trace_ok_visit[OF t assms(2,3)]
      opt_visit[OF c _ assms(2)]
    unfolding inv_def by blast
qed

lemma final_found:
  assumes "inv self algorithm {} st" and "pq_get (frontier st) = Some ((p, current, g0), q)"
    and "current \<notin> visited st" and "current = endp self"
  shows "final self algorithm (visit st q current)"
proof -
  have c: "costs_ok self st" and t: "trace_ok self st"
    and o: "optimal algorithm \<longrightarrow> opt self algorithm {} st"
    using assms(1) by (simp_all add: inv_def)
  have "optimal algorithm \<longrightarrow> settled self (visit st q current)"
    using o opt_visit[OF c _ assms(2)] unfolding opt_def by blast
  moreover have "endp self \<in> visited (visit st q current)"
    using assms(4) by (simp add: visit_def)
  ultimately show ?thesis
    using c costs_ok_visit[of self st q current] trace_ok_visit[OF t assms(2,3)]
    unfolding final_def by blast
qed

lemma final_empty:
  assumes "inv self algorithm {} st" and "pq_get (frontier st) = None"
  shows "final self algorithm st"
  using assms unfolding inv_def final_def opt_def pq_get_None by blast

lemma inv_relax:
  assumes "wf_grid self" and "inv self algorithm ({current} \<times> set ns) st"
    and "current \<in> visited st" and "\<forall>n\<in>set ns. free self n \<and> adjacent current n"
  shows "\<exists>st'. relax self algorithm current ns st = Inr st' \<and> inv self algorithm {} st'"
proof -
  let ?P = "\<lambda>rest s. inv self algorithm ({current} \<times> set rest) s \<and> current \<in> visited s \<and>
                     (\<forall>n\<in>set rest. free self n \<and> adjacent current n)"
  have "\<exists>st'. relax self algorithm current ns st = Inr st' \<and> ?P [] st'"
  proof (rule relax_rule[where P = ?P])
    show "?P ns st" using assms(2,3,4) by simp
  next
    fix n rest s
    assume P: "?P (n # rest) s"
    then have i: "inv self algorithm ({current} \<times> set (n # rest)) s"
      and cv: "current \<in> visited s" and fn: "free self n" and an: "adjacent current n"
      and rest: "\<forall>n\<in>set rest. free self n \<and> adjacent current n" by simp_all
    have c: "costs_ok self s" and t: "trace_ok self s"
      and pe: "pending self ({current} \<times> set (n # rest)) s"
      and o: "optimal algorithm \<longrightarrow> opt self algorithm ({current} \<times> set (n # rest)) s"
      using i by (simp_all add: inv_def)
    obtain v where v: "grid_at self n = Inr v" "v \<noteq> 1"
      using free_grid_at[OF assms(1) fn] by blast
    have "current \<in> dom (cost_so_far s)" using cv t unfolding trace_ok_def by blast
    then obtain cc where cc: "cost_so_far s current = Some cc" by auto
    have sub: "{current} \<times> set (n # rest) - {(current, n)} \<subseteq> {current} \<times> set rest" by auto
    let ?cond = "case cost_so_far s n of None \<Rightarrow> True | Some old \<Rightarrow> cc + 1 < old"
    let ?s' = "improve s current n (cc + 1)
                 (priority_of algorithm (cc + 1) (manhattan_distance n (endp self)))"
    have "if ?cond then ?P rest ?s' else ?P rest s"
    proof (cases ?cond)
      case True
      have 1: "costs_ok self ?s'" using costs_ok_improve[OF c cc fn an True] .
      have 2: "trace_ok self ?s'" using trace_ok_improve[OF t cv] .
      have 3: "pending self ({current} \<times> set rest) ?s'"
        using pending_mono[OF pending_improve[OF pe] sub] .
      have 4: "optimal algorithm \<longrightarrow> opt self algorithm ({current} \<times> set rest) ?s'"
        using opt_mono[OF opt_improve[OF _ c t _ cc cv fn an True] sub] o by blast
      have 5: "current \<in> visited ?s'" using cv by (simp add: improve_def)
      show ?thesis using True 1 2 3 4 5 rest by (simp add: inv_def)
    next
      case False
      then have "n \<in> dom (cost_so_far s)" by (cases "cost_so_far s n") auto
      then have 3: "pending self ({current} \<times> set rest) s"
        using pending_mono[OF pending_skip[OF pe] sub] by blast
      have 4: "optimal algorithm \<longrightarrow> opt self algorithm ({current} \<times> set rest) s"
        using opt_mono[OF opt_skip[OF _ cc False] sub] o by blast
      show ?thesis using False c t 3 4 cv rest by (simp add: inv_def)
    qed
    then show "\<exists>v c. grid_at self n = Inr v \<and> v \<noteq> 1 \<and> cost_so_far s current = Some c \<and>
             (if (case cost_so_far s n of None \<Rightarrow> True | Some old \<Rightarrow> c + 1 < old)
              then ?P rest (improve s current n (c + 1)
                             (priority_of algorithm (c + 1) (manhattan_distance n (endp self))))
              else ?P rest s)"
      using v cc by blast
  qed
  then show ?thesis by auto
qed

lemma search_loop_final:
  "wf_grid self \<Longrightarrow> inv self algorithm {} st \<Longrightarrow>
   \<exists>st'. search_loop self algorithm st = Inr st' \<and> final self algorithm st'"
proof (induction self algorithm st rule: search_loop.induct)
  case (1 self algorithm st)
  note wf = "1.prems"(1) and iv = "1.prems"(2)
  show ?case
  proof (cases "pq_get (frontier st)")
    case None
    then show ?thesis using final_empty[OF iv] search_loop_empty by blast
  next
    case (Some x)
    obtain p current g0 q where x: "x = ((p, current, g0), q)" by (metis prod_cases3 surj_pair)
    have g: "pq_get (frontier st) = Some ((p, current, g0), q)" using Some x by simp
    have c: "costs_ok self st" and t: "trace_ok self st"
      using iv by (simp_all add: inv_def)
    show ?thesis
    proof (cases "current \<in> visited st")
      case True
      have "\<exists>st'. search_loop self algorithm (st\<lparr>frontier := q\<rparr>) = Inr st' \<and>
                  final self algorithm st'"
        using "1.IH"(1)[OF g refl refl refl True wf inv_stale[OF iv g True]] .
      then show ?thesis using search_loop_stale[OF g True] by simp
    next
      case False
      obtain v where v: "grid_at self current = Inr v" "v \<noteq> 1"
        using free_grid_at[OF wf popped_free(1)[OF c t g]] by blast
      show ?thesis
      proof (cases "current = endp self")
        case True
        show ?thesis
          using search_loop_found[OF g False v True] final_found[OF iv g False True]
          by blast
      next
        case ne: False
        obtain ns where ns: "get_neighbors self (fst current) (snd current) = Inr ns"
          "set ns = {w. free self w \<and> adjacent current w}"
          using get_neighbors_set[OF wf] by blast
        have i: "inv self algorithm ({current} \<times> set ns) (visit st q current)"
          using inv_restrict[OF inv_visit[OF iv g False ne]] ns(2) by auto
        have "\<exists>st'. relax self algorithm current ns (visit st q current) = Inr st' \<and>
                inv self algorithm {} st'"
          using inv_relax[OF wf i] ns(2) by (simp add: visit_def)
        then obtain st' where st': "relax self algorithm current ns (visit st q current) = Inr st'"
          "inv self algorithm {} st'" by blast
        have "\<exists>st''. search_loop self algorithm st' = Inr st'' \<and> final self algorithm st''"
          using "1.IH"(3)[OF g refl refl refl False v(1) v(2) ne ns(1) _ wf st'(2)] st'(1)
          by (simp add: visit_def)
        then show ?thesis using search_loop_expand[OF g False v ne ns(1) st'(1)] by simp
      qed
    qed
  qed
qed

subsection \<open>From the loop to the result\<close>

lemma init_inv:
  assumes "free self (start self)"
  shows "inv self algorithm {} (initial_state self algorithm)"
proof -
  let ?st = "initial_state self algorithm"
  have g: "cost_so_far ?st = [start self \<mapsto> 0]" and cf: "came_from ?st = [start self \<mapsto> None]"
    and f: "frontier ?st = [(initial_priority algorithm (start self) (endp self), start self, 0)]"
    and v: "visited ?st = {}" and e: "explored ?st = []"
    by (simp_all add: initial_state_def pq_put_def)
  have c1: "\<forall>n c. cost_so_far ?st n = Some c \<longrightarrow> 0 \<le> c \<and> reach self (nat c) n"
  proof (intro allI impI)
    fix n c assume "cost_so_far ?st n = Some c"
    then have "n = start self" "c = 0" unfolding g by (auto split: if_splits)
    then show "0 \<le> c \<and> reach self (nat c) n" using reach_start[OF assms] by simp
  qed
  have c2: "\<forall>n. n \<noteq> start self \<longrightarrow> link ?st n"
    unfolding link_def g cf by simp
  have 1: "costs_ok self ?st" unfolding costs_ok_def using c1 c2 by (simp add: g cf)
  have 2: "trace_ok self ?st" unfolding trace_ok_def by (simp add: g f v e queued_def)
  have 3: "pending self {} ?st" unfolding pending_def by (simp add: g f v queued_def)
  have "queue_first self ?st" unfolding queue_first_def by (simp add: g f v)
  moreover have "settled self ?st" unfolding settled_def by (simp add: v)
  moreover have "relaxed self {} ?st" unfolding relaxed_def by (simp add: v)
  ultimately have 4: "opt self algorithm {} ?st" by (simp add: opt_def)
  show ?thesis unfolding inv_def using 1 2 3 4 by simp
qed

lemma reconstruct_None: "reconstruct cf None path = Some path"
  by (subst reconstruct.simps) simp

lemma reconstruct_Some:
  "reconstruct cf (Some c) path
     = reconstruct cf (case cf c of None \<Rightarrow> None | Some p \<Rightarrow> p) (path @ [c])"
  by (subst reconstruct.simps) simp

lemma reconstruct_chain:
  assumes "costs_ok self st"
  shows "cost_so_far st n = Some c \<Longrightarrow>
         \<exists>ps. reconstruct (came_from st) (Some n) acc = Some (acc @ ps) \<and> ps \<noteq> [] \<and>
              hd ps = n \<and> last ps = start self \<and> valid_walk self (rev ps) \<and>
              int (length ps) \<le> c + 1"
proof (induction "nat c" arbitrary: n c acc rule: less_induct)
  case less
  have "0 \<le> c \<and> reach self (nat c) n" using assms less.prems unfolding costs_ok_def by blast
  then have c0: "0 \<le> c" and fn: "free self n" using reach_free by blast+
  show ?case
  proof (cases "n = start self")
    case True
    have "came_from st n = Some None" "c = 0"
      using assms True less.prems by (simp_all add: costs_ok_def)
    then have "reconstruct (came_from st) (Some n) acc = Some (acc @ [n])"
      by (simp add: reconstruct_Some reconstruct_None)
    then show ?thesis using True fn c0 by (simp add: valid_walk_single)
  next
    case False
    then have "link st n" using assms unfolding costs_ok_def by blast
    then obtain p cp where p: "came_from st n = Some (Some p)" "adjacent p n"
      "cost_so_far st p = Some cp" "cp + 1 \<le> c"
      using less.prems unfolding link_def by (auto split: option.splits)
    have "0 \<le> cp" using assms p(3) unfolding costs_ok_def by blast
    then have "nat cp < nat c" using p(4) by linarith
    from less.hyps[OF this p(3), of "acc @ [n]"] obtain ps where
      ps: "reconstruct (came_from st) (Some p) (acc @ [n]) = Some ((acc @ [n]) @ ps)"
      "ps \<noteq> []" "hd ps = p" "last ps = start self" "valid_walk self (rev ps)"
      "int (length ps) \<le> cp + 1" by blast
    have 1: "reconstruct (came_from st) (Some n) acc = Some (acc @ n # ps)"
      using ps(1) p(1) by (simp add: reconstruct_Some)
    have "last (rev ps) = p" using ps(2,3) by (simp add: last_rev)
    then have 2: "valid_walk self (rev (n # ps))"
      using valid_walk_snoc[OF ps(5) fn] p(2) by simp
    show ?thesis using 1 2 ps(2,4,6) p(4) by (intro exI[of _ "n # ps"]) simp
  qed
qed

lemma reconstruct_unknown:
  assumes "costs_ok self st" and "cost_so_far st n = None"
  shows "reconstruct (came_from st) (Some n) [] = Some [n]"
proof -
  have "n \<noteq> start self" using assms by (auto simp: costs_ok_def)
  then have "link st n" using assms(1) unfolding costs_ok_def by blast
  then have "came_from st n = None"
    using assms(2) unfolding link_def by (auto split: option.splits)
  then show ?thesis by (simp add: reconstruct_Some reconstruct_None)
qed

lemma any_wall_free:
  assumes "wf_grid self"
  shows "list_all (free self) ps \<Longrightarrow> any_wall self ps = Inr False"
proof (induction ps)
  case Nil
  show ?case by simp
next
  case (Cons p ps)
  then obtain v where "grid_at self p = Inr v" "v \<noteq> 1"
    using free_grid_at[OF assms, of p] by auto
  then show ?case using Cons by simp
qed

lemma find_path_result:
  assumes "wf_grid self" and "free self (start self)"
  shows "\<exists>st. final self algorithm st \<and>
           (case cost_so_far st (endp self) of
              None \<Rightarrow> find_path self algorithm = Some (Inr (None, explored st))
            | Some c \<Rightarrow>
                (\<exists>path. find_path self algorithm = Some (Inr (Some path, explored st)) \<and>
                        connects self path (start self) (endp self) \<and>
                        int (length path) \<le> c + 1))"
proof -
  obtain st where st: "search_loop self algorithm (initial_state self algorithm) = Inr st"
    "final self algorithm st"
    using search_loop_final[OF assms(1) init_inv[OF assms(2)]] by blast
  have c: "costs_ok self st" using st(2) by (simp add: final_def)
  have "case cost_so_far st (endp self) of
              None \<Rightarrow> find_path self algorithm = Some (Inr (None, explored st))
            | Some c \<Rightarrow>
                (\<exists>path. find_path self algorithm = Some (Inr (Some path, explored st)) \<and>
                        connects self path (start self) (endp self) \<and>
                        int (length path) \<le> c + 1)"
  proof (cases "cost_so_far st (endp self)")
    case None
    have "endp self \<noteq> start self" using c None by (auto simp: costs_ok_def)
    then show ?thesis
      using None st(1) reconstruct_unknown[OF c None] by (simp add: find_path_def)
  next
    case (Some d)
    from reconstruct_chain[OF c Some, of "[]"] obtain ps where
      ps: "reconstruct (came_from st) (Some (endp self)) [] = Some ps" "ps \<noteq> []"
      "hd ps = endp self" "last ps = start self" "valid_walk self (rev ps)"
      "int (length ps) \<le> d + 1" by auto
    have w: "any_wall self (rev ps) = Inr False"
      using any_wall_free[OF assms(1)] ps(5) by (simp add: valid_walk_def)
    have h: "hd (rev ps) = start self" "last (rev ps) = endp self" "rev ps \<noteq> []"
      using ps(2,3,4) by (simp_all add: hd_rev last_rev)
    have "find_path self algorithm = Some (Inr (Some (rev ps), explored st))"
      using st(1) ps(1) w h by (simp add: find_path_def)
    moreover have "connects self (rev ps) (start self) (endp self)"
      using ps(5) h by (simp add: connects_def)
    ultimately show ?thesis using Some ps(6) by auto
  qed
  then show ?thesis using st(2) by blast
qed

end
